theory Spec2Isabelle
  imports Main "HOL-Library.Sublist"
begin

chapter \<open>The database repository: vector indexes, extension upgrades and locks\<close>

text \<open>
  A model of \<^verbatim>\<open>server/src/repositories/database.repository.ts\<close>: the index statements
  of the three vector extensions, the drift check of live indexes, the rebuild of an index,
  the upgrade of an extension, and the coordinator that serialises schema changes with an
  in-process mutex and a PostgreSQL advisory lock. The definitions come first, function by
  function as in the source; the properties follow, each with an example at a concrete
  input.
\<close>

section \<open>Strings\<close>

text \<open>
  The repository builds SQL text from template literals and inspects catalog text with
  \<^verbatim>\<open>String.prototype.toLowerCase\<close> and \<^verbatim>\<open>String.prototype.includes\<close>.
  Strings are character lists; a line break inside a template literal is the character
  \<open>\<newline>\<close>. Case mapping is modelled on the ASCII letters, every other character
  is left as it is.
\<close>

definition str_includes :: "string \<Rightarrow> string \<Rightarrow> bool" where
  \<comment> \<open>\<^verbatim>\<open>s.includes(k)\<close>: \<open>k\<close> occurs in \<open>s\<close> as a contiguous run.\<close>
  "str_includes s k = sublist k s"

definition toLowerChar :: "char \<Rightarrow> char" where
  "toLowerChar c =
     (case map_of (zip ''ABCDEFGHIJKLMNOPQRSTUVWXYZ'' ''abcdefghijklmnopqrstuvwxyz'') c of
        Some l \<Rightarrow> l
      | None \<Rightarrow> c)"

definition toLowerCase :: "string \<Rightarrow> string" where
  "toLowerCase s = map toLowerChar s"

fun String_nat :: "nat \<Rightarrow> string" where
  "String_nat n =
     (if n < 10 then [''0123456789'' ! n]
      else String_nat (n div 10) @ [''0123456789'' ! (n mod 10)])"

declare String_nat.simps [simp del]

definition String :: "int \<Rightarrow> string" where
  \<comment> \<open>\<^verbatim>\<open>String(n)\<close> for an integral number: its decimal digits, with a sign when negative.\<close>
  "String i = (if i < 0 then ''-'' @ String_nat (nat (- i)) else String_nat (nat i))"

section \<open>Extension kinds, failures and recorded effects\<close>

text \<open>
  \<^verbatim>\<open>DatabaseExtension\<close> is declared in \<^verbatim>\<open>src/enum\<close>. The repository code names three
  of its members, the vector extensions; every function that switches on the kind has a
  \<^verbatim>\<open>default\<close> branch for the remaining members, which \<open>OtherExtension\<close> stands for
  (by the member's name).
\<close>

datatype DatabaseExtension = VECTORCHORD | VECTORS | VECTOR | OtherExtension string

definition isVectorExtension :: "DatabaseExtension \<Rightarrow> bool" where
  \<comment> \<open>The members of the TypeScript type \<^verbatim>\<open>VectorExtension\<close>.\<close>
  "isVectorExtension e = (e = VECTORCHORD \<or> e = VECTORS \<or> e = VECTOR)"

text \<open>
  Every \<^verbatim>\<open>throw\<close> of the repository is a value of \<open>error\<close>; a function that may throw
  returns \<open>error + 'a\<close> with the failure on the left. \<open>Failure\<close> is any other rejection
  (of a callback, of the database driver, of \<^verbatim>\<open>semver\<close>), named by its message.
\<close>

datatype error =
    Unsupported_vector_extension DatabaseExtension
  | Extension_not_installed DatabaseExtension
  | No_available_version DatabaseExtension
  | Could_not_retrieve_dimension_size
  | Failure string

type_synonym VectorIndex = string

definition CLIP :: VectorIndex where
  \<comment> \<open>\<^verbatim>\<open>VectorIndex.CLIP\<close>, the index the migrations create on \<^verbatim>\<open>smart_search\<close>.\<close>
  "CLIP = ''clip_index''"

definition FACE :: VectorIndex where
  \<comment> \<open>\<^verbatim>\<open>VectorIndex.FACE\<close>, the index the migrations create on the face table.\<close>
  "FACE = ''face_index''"

text \<open>
  A statement is one SQL template of the repository with the values spliced into it.
  It is issued either through the pool (\<^verbatim>\<open>this.db\<close>) or on the connection of the
  enclosing transaction (\<^verbatim>\<open>tx\<close>). A function with effects returns its result together
  with the events it caused, in order.
\<close>

datatype statement =
    SetSearchPath
  | AlterExtensionUpdate DatabaseExtension string
  | PgvectorsUpgrade
  | DropIndexIfExists VectorIndex
  | AlterColumnType string string
  | RawSql string

datatype executor = Db | Tx

datatype event =
    Log string
  | Warn string
  | Begin
  | Commit
  | Rollback
  | Execute executor statement

definition transaction :: "(error + 'a) \<times> event list \<Rightarrow> (error + 'a) \<times> event list" where
  \<comment> \<open>\<^verbatim>\<open>this.db.transaction().execute(body)\<close>: commit when the body returns, roll back
      and rethrow when it throws.\<close>
  "transaction body =
     (case fst body of
        Inl e \<Rightarrow> (Inl e, [Begin] @ snd body @ [Rollback])
      | Inr v \<Rightarrow> (Inr v, [Begin] @ snd body @ [Commit]))"

section \<open>Catalog reads\<close>

record ExtensionVersion =
  availableVersion :: "string option"
  installedVersion :: "string option"

record index_row =
  indexdef :: string
  indexname :: string

text \<open>
  The catalog is what the engine answers to the four read-only queries of the repository:
  the rows of \<^verbatim>\<open>pg_available_extensions\<close> for an extension, the \<^verbatim>\<open>relname\<close> column
  of \<^verbatim>\<open>pg_stat_all_indexes\<close> for an index, the \<^verbatim>\<open>atttypmod\<close> column of
  \<^verbatim>\<open>pg_attribute\<close> for a table and a column, and the rows of \<^verbatim>\<open>pg_indexes\<close>.
\<close>

record catalog =
  pg_available_extensions :: "DatabaseExtension \<Rightarrow> ExtensionVersion list"
  pg_stat_all_indexes :: "VectorIndex \<Rightarrow> string option list"
  pg_attribute :: "string \<Rightarrow> string \<Rightarrow> int list"
  pg_indexes :: "index_row list"


definition getIndexTable :: "catalog \<Rightarrow> VectorIndex \<Rightarrow> string option" where
  "getIndexTable cat index =
     (case pg_stat_all_indexes cat index of
        [] \<Rightarrow> None
      | relname # _ \<Rightarrow> relname)"

definition isValidInteger :: "int option \<Rightarrow> int \<Rightarrow> int \<Rightarrow> bool" where
  \<comment> \<open>Modelled from the spec: \<^verbatim>\<open>isValidInteger\<close> of \<^verbatim>\<open>src/validation\<close>, which is not among
      the sources; section 4.4 has the dimension size fail when "it cannot be determined or
      is out of the valid range". An absent value is not valid.\<close>
  "isValidInteger v lo hi = (case v of None \<Rightarrow> False | Some n \<Rightarrow> lo \<le> n \<and> n \<le> hi)"

definition getDimSize :: "catalog \<Rightarrow> string \<Rightarrow> error + int" where
  "getDimSize cat table =
     (let dimSize = (case pg_attribute cat table ''embedding'' of
                       [] \<Rightarrow> None
                     | d # _ \<Rightarrow> Some d)
      in if \<not> isValidInteger dimSize 1 (2 ^ 16) then Inl Could_not_retrieve_dimension_size
         else (case dimSize of
                 None \<Rightarrow> Inl Could_not_retrieve_dimension_size
               | Some d \<Rightarrow> Inr d))"

section \<open>Index statements\<close>

definition createVectorIndex :: "DatabaseExtension \<Rightarrow> string \<Rightarrow> string \<Rightarrow> error + string" where
  "createVectorIndex vectorExtension tableName indexName =
     (case vectorExtension of
        VECTORCHORD \<Rightarrow>
          Inr (''\<newline>        CREATE INDEX IF NOT EXISTS '' @ indexName @ '' ON '' @ tableName
               @ '' USING vchordrq (embedding vector_cosine_ops) WITH (options = $$\<newline>''
               @ ''        residual_quantization = false\<newline>''
               @ ''        [build.internal]\<newline>''
               @ ''        lists = [1000]\<newline>''
               @ ''        spherical_centroids = true\<newline>''
               @ ''        $$)'')
      | VECTORS \<Rightarrow>
          Inr (''\<newline>        CREATE INDEX IF NOT EXISTS '' @ indexName @ '' ON '' @ tableName
               @ '' USING vectors (embedding vector_cos_ops) WITH (options = $$\<newline>''
               @ ''        [indexing.hnsw]\<newline>''
               @ ''        m = 16\<newline>''
               @ ''        ef_construction = 300\<newline>''
               @ ''        $$)'')
      | VECTOR \<Rightarrow>
          Inr (''\<newline>        CREATE INDEX IF NOT EXISTS '' @ indexName @ ''\<newline>''
               @ ''        ON '' @ tableName @ ''\<newline>''
               @ ''        USING hnsw (embedding vector_cosine_ops)'')
      | OtherExtension name \<Rightarrow> Inl (Unsupported_vector_extension vectorExtension))"

text \<open>
  The names reach the query of \<open>shouldReindex\<close> as one value: \<^verbatim>\<open>${names}\<close> is a
  substitution of the \<^verbatim>\<open>sql\<close> template, which binds the whole array as a single
  parameter, and the driver sends it as text, the names joined by commas
  (\<^verbatim>\<open>String(names)\<close>). So \<^verbatim>\<open>ARRAY[...]\<close> has that text as its only element, and the
  rows returned are those whose \<^verbatim>\<open>indexname\<close> equals it.
\<close>

fun join_commas :: "string list \<Rightarrow> string" where
  "join_commas [] = []"
| "join_commas [x] = x"
| "join_commas (x # y # ys) = x @ '','' @ join_commas (y # ys)"

definition shouldReindex :: "DatabaseExtension \<Rightarrow> catalog \<Rightarrow> VectorIndex list \<Rightarrow> error + bool list" where
  "shouldReindex vectorExtension cat names =
     (let rows = filter (\<lambda>row. indexname row = join_commas names) (pg_indexes cat) in
      case (case vectorExtension of
              VECTOR \<Rightarrow> Inr ''using hnsw''
            | VECTORCHORD \<Rightarrow> Inr ''using vchordrq''
            | VECTORS \<Rightarrow> Inr ''using vectors''
            | OtherExtension name \<Rightarrow> Inl (Unsupported_vector_extension vectorExtension)) of
        Inl e \<Rightarrow> Inl e
      | Inr keyword \<Rightarrow>
          Inr (map (\<lambda>name.
                 \<not> (case find (\<lambda>index. indexname index = name) rows of
                      None \<Rightarrow> False
                    | Some index \<Rightarrow> str_includes (toLowerCase (indexdef index)) keyword))
               names))"

section \<open>Rebuilding an index\<close>

definition reindex :: "DatabaseExtension \<Rightarrow> catalog \<Rightarrow> VectorIndex \<Rightarrow> (error + unit) \<times> event list" where
  "reindex vectorExtension cat index =
     (let started = [Log (''Reindexing '' @ index)];
          miss = (Inr (), started @ [Warn (''Could not find table for index '' @ index)])
      in case getIndexTable cat index of
           None \<Rightarrow> miss
         | Some table \<Rightarrow>
             if table = [] then miss
             else (case getDimSize cat table of
                     Inl e \<Rightarrow> (Inl e, started)
                   | Inr dimSize \<Rightarrow>
                       (let schema = (if vectorExtension = VECTORS then ''vectors.'' else '''');
                            retyped =
                              [Execute Db (DropIndexIfExists index),
                               Execute Tx (AlterColumnType table ''real[]''),
                               Execute Tx (AlterColumnType table
                                 (schema @ ''vector('' @ String dimSize @ '')''))];
                            done = transaction
                              (case createVectorIndex vectorExtension table index of
                                 Inl e \<Rightarrow> (Inl e, retyped)
                               | Inr query \<Rightarrow> (Inr (), retyped @ [Execute Tx (RawSql query)]))
                        in (fst done, started @ snd done))))"

section \<open>Upgrading an extension\<close>






section \<open>The lock coordinator\<close>

text \<open>
  A \<^verbatim>\<open>DatabaseLock\<close> is a member of a numeric enum, given here by its number. The number
  is the key of the advisory lock (\<^verbatim>\<open>${lock}\<close>); the key of the in-process mutex is the
  member's name (\<^verbatim>\<open>DatabaseLock[lock]\<close>), one name per number, so the mutex is keyed by
  the lock as well. A connection is a database session.

  Two parts of the coordinator are not code of the repository. PostgreSQL's advisory locks
  are session-level: a lock is held by one session at a time, requests of the holder
  stack and need as many unlocks, \<^verbatim>\<open>pg_advisory_lock\<close> waits while another session
  holds the lock, \<^verbatim>\<open>pg_try_advisory_lock\<close> answers at once, and
  \<^verbatim>\<open>pg_advisory_unlock\<close> never waits. The table of held locks maps a key to its holder and
  to the number of holds stacked on the first. The \<^verbatim>\<open>async-lock\<close> package grants a key to
  one caller at a time and releases it when the caller's function has settled.
\<close>

type_synonym DatabaseLock = nat

type_synonym connection = nat

type_synonym advisory_locks = "DatabaseLock \<Rightarrow> (connection \<times> nat) option"

definition pg_advisory_lock :: "connection \<Rightarrow> DatabaseLock \<Rightarrow> advisory_locks \<Rightarrow> advisory_locks option" where
  \<comment> \<open>\<open>None\<close>: the session waits.\<close>
  "pg_advisory_lock c k held =
     (case held k of
        None \<Rightarrow> Some (held(k \<mapsto> (c, 0)))
      | Some (holder, n) \<Rightarrow> if holder = c then Some (held(k \<mapsto> (c, Suc n))) else None)"

definition pg_try_advisory_lock :: "connection \<Rightarrow> DatabaseLock \<Rightarrow> advisory_locks \<Rightarrow> bool \<times> advisory_locks" where
  "pg_try_advisory_lock c k held =
     (case pg_advisory_lock c k held of
        None \<Rightarrow> (False, held)
      | Some held' \<Rightarrow> (True, held'))"

definition pg_advisory_unlock :: "connection \<Rightarrow> DatabaseLock \<Rightarrow> advisory_locks \<Rightarrow> bool \<times> advisory_locks" where
  "pg_advisory_unlock c k held =
     (case held k of
        None \<Rightarrow> (False, held)
      | Some (holder, n) \<Rightarrow>
          if holder \<noteq> c then (False, held)
          else (True, case n of 0 \<Rightarrow> held(k := None) | Suc m \<Rightarrow> held(k \<mapsto> (c, m))))"

datatype lock_statement =
    Pg_advisory_lock DatabaseLock
  | Pg_try_advisory_lock DatabaseLock
  | Pg_advisory_unlock DatabaseLock

datatype lock_event =
    Acquired DatabaseLock
  | Released DatabaseLock
  | Executed connection lock_statement
  | Rejected connection lock_statement

text \<open>
  The world of one server process: which keys of its mutex are taken, the advisory locks
  of the database, the statements the driver currently rejects on a connection (and with
  which failure: a cancelled query, a timeout), and what has happened so far.
\<close>

record world =
  queues :: "DatabaseLock \<Rightarrow> bool"
  advisory :: advisory_locks
  rejects :: "connection \<Rightarrow> lock_statement \<Rightarrow> error option"
  history :: "lock_event list"

definition acquireLock :: "DatabaseLock \<Rightarrow> connection \<Rightarrow> world \<Rightarrow> ((error + unit) \<times> world) option" where
  "acquireLock lock connection s =
     (case rejects s connection (Pg_advisory_lock lock) of
        Some e \<Rightarrow>
          Some (Inl e, s\<lparr>history := history s @ [Rejected connection (Pg_advisory_lock lock)]\<rparr>)
      | None \<Rightarrow>
          (case pg_advisory_lock connection lock (advisory s) of
             None \<Rightarrow> None
           | Some held \<Rightarrow>
               Some (Inr (), s\<lparr>advisory := held,
                               history := history s @ [Executed connection (Pg_advisory_lock lock)]\<rparr>)))"

definition acquireTryLock :: "DatabaseLock \<Rightarrow> connection \<Rightarrow> world \<Rightarrow> (error + bool) \<times> world" where
  "acquireTryLock lock connection s =
     (case rejects s connection (Pg_try_advisory_lock lock) of
        Some e \<Rightarrow>
          (Inl e, s\<lparr>history := history s @ [Rejected connection (Pg_try_advisory_lock lock)]\<rparr>)
      | None \<Rightarrow>
          (let row = pg_try_advisory_lock connection lock (advisory s)
           in (Inr (fst row),
               s\<lparr>advisory := snd row,
                 history := history s @ [Executed connection (Pg_try_advisory_lock lock)]\<rparr>)))"

definition releaseLock :: "DatabaseLock \<Rightarrow> connection \<Rightarrow> world \<Rightarrow> (error + unit) \<times> world" where
  "releaseLock lock connection s =
     (case rejects s connection (Pg_advisory_unlock lock) of
        Some e \<Rightarrow>
          (Inl e, s\<lparr>history := history s @ [Rejected connection (Pg_advisory_unlock lock)]\<rparr>)
      | None \<Rightarrow>
          (Inr (), s\<lparr>advisory := snd (pg_advisory_unlock connection lock (advisory s)),
                     history := history s @ [Executed connection (Pg_advisory_unlock lock)]\<rparr>))"

definition asyncLock_acquire ::
  "DatabaseLock \<Rightarrow> (world \<Rightarrow> ((error + 'a) \<times> world) option) \<Rightarrow> world \<Rightarrow> ((error + 'a) \<times> world) option" where
  \<comment> \<open>\<^verbatim>\<open>this.asyncLock.acquire(key, fn)\<close> for a caller running alone: while the key is
      taken the caller stays queued (\<open>None\<close>); otherwise the key is taken, \<open>fn\<close> runs, and
      the key is released whether \<open>fn\<close> returned or threw.\<close>
  "asyncLock_acquire key fn s =
     (if queues s key then None
      else (case fn (s\<lparr>queues := (queues s)(key := True),
                       history := history s @ [Acquired key]\<rparr>) of
              None \<Rightarrow> None
            | Some (r, s') \<Rightarrow>
                Some (r, s'\<lparr>queues := (queues s')(key := False),
                            history := history s' @ [Released key]\<rparr>)))"

definition try_finally :: "error + 'a \<Rightarrow> (error + unit) \<times> world \<Rightarrow> (error + 'a) \<times> world" where
  \<comment> \<open>\<^verbatim>\<open>try { ... } finally { await release }\<close>: the outcome of the \<^verbatim>\<open>try\<close> block stands
      unless the \<^verbatim>\<open>finally\<close> block throws, and then that failure takes its place.\<close>
  "try_finally outcome released =
     (case fst released of
        Inl e \<Rightarrow> (Inl e, snd released)
      | Inr _ \<Rightarrow> (outcome, snd released))"

definition withLock ::
  "DatabaseLock \<Rightarrow> connection \<Rightarrow> (world \<Rightarrow> (error + 'r) \<times> world) \<Rightarrow> world \<Rightarrow> ((error + 'r) \<times> world) option" where
  \<comment> \<open>\<open>connection\<close> is the connection that \<^verbatim>\<open>this.db.connection()\<close> reserves for the call.\<close>
  "withLock lock connection callback s =
     asyncLock_acquire lock
       (\<lambda>s1. case acquireLock lock connection s1 of
                None \<Rightarrow> None
              | Some (Inl e, s2) \<Rightarrow> Some (try_finally (Inl e) (releaseLock lock connection s2))
              | Some (Inr _, s2) \<Rightarrow>
                  (let settled = callback s2
                   in Some (try_finally (fst settled)
                              (releaseLock lock connection (snd settled)))))
       s"

definition tryLock :: "DatabaseLock \<Rightarrow> connection \<Rightarrow> world \<Rightarrow> (error + bool) \<times> world" where
  "tryLock lock connection s = acquireTryLock lock connection s"

definition isBusy :: "DatabaseLock \<Rightarrow> world \<Rightarrow> bool" where
  "isBusy lock s = queues s lock"

definition wait :: "DatabaseLock \<Rightarrow> world \<Rightarrow> ((error + unit) \<times> world) option" where
  "wait lock s = asyncLock_acquire lock (\<lambda>s1. Some (Inr (), s1)) s"

section \<open>Concurrent calls\<close>

text \<open>
  Several calls of the coordinator are in flight at once, in one process or in several
  processes that share the database; each process has its own mutex. A call advances by
  the steps at which the source awaits: being granted the key of the mutex, receiving a
  connection that no other call has reserved, the return of its SQL statement (or its
  rejection by the driver), the settling of the operation, the return of the connection,
  and the release of the key. A step that cannot be taken yet (the key is taken, the
  advisory lock is held by another session) is not enabled. The operation passed to
  \<open>withLock\<close> is opaque; whatever it calls on the coordinator is a call of its own.
\<close>

datatype call = WithLock DatabaseLock | TryLock DatabaseLock | Wait DatabaseLock

record task =
  process :: nat
  call :: call

datatype stage =
    Called
  | Holding
  | Connected connection
  | Running connection
  | Finishing connection bool
  | Disconnecting connection
  | Leaving
  | Returned

record system =
  mutex :: "nat \<times> DatabaseLock \<Rightarrow> nat option"
  locks :: advisory_locks
  reserved :: "connection \<Rightarrow> nat option"
  stage :: "nat \<Rightarrow> stage"

datatype action =
    Enter nat
  | Connect nat connection
  | Lock nat
  | LockRejected nat
  | Settle nat
  | Unlock nat
  | UnlockRejected nat
  | Probe nat
  | ProbeRejected nat
  | Disconnect nat
  | Leave nat

definition initial :: system where
  "initial = \<lparr>mutex = (\<lambda>k. None), locks = (\<lambda>k. None), reserved = (\<lambda>c. None),
              stage = (\<lambda>t. Called)\<rparr>"

fun step :: "(nat \<Rightarrow> task) \<Rightarrow> system \<Rightarrow> action \<Rightarrow> system option" where
  "step P s (Enter t) =
     \<comment> \<open>\<^verbatim>\<open>asyncLock.acquire\<close> of \<open>withLock\<close> and of \<open>wait\<close>: the key is granted when free.\<close>
     (case (call (P t), stage s t) of
        (WithLock L, Called) \<Rightarrow>
          if mutex s (process (P t), L) = None
          then Some (s\<lparr>mutex := (mutex s)((process (P t), L) \<mapsto> t),
                       stage := (stage s)(t := Holding)\<rparr>)
          else None
      | (Wait L, Called) \<Rightarrow>
          if mutex s (process (P t), L) = None
          then Some (s\<lparr>mutex := (mutex s)((process (P t), L) \<mapsto> t),
                       stage := (stage s)(t := Holding)\<rparr>)
          else None
      | _ \<Rightarrow> None)"
| "step P s (Connect t c) =
     \<comment> \<open>\<^verbatim>\<open>this.db.connection()\<close>: \<open>withLock\<close> asks under the mutex, \<open>tryLock\<close> at once.\<close>
     (if reserved s c \<noteq> None then None
      else (case (call (P t), stage s t) of
              (WithLock L, Holding) \<Rightarrow>
                Some (s\<lparr>reserved := (reserved s)(c \<mapsto> t), stage := (stage s)(t := Connected c)\<rparr>)
            | (TryLock L, Called) \<Rightarrow>
                Some (s\<lparr>reserved := (reserved s)(c \<mapsto> t), stage := (stage s)(t := Connected c)\<rparr>)
            | _ \<Rightarrow> None))"
| "step P s (Lock t) =
     \<comment> \<open>\<open>acquireLock\<close> returns; the operation starts.\<close>
     (case (call (P t), stage s t) of
        (WithLock L, Connected c) \<Rightarrow>
          (case pg_advisory_lock c L (locks s) of
             None \<Rightarrow> None
           | Some held \<Rightarrow> Some (s\<lparr>locks := held, stage := (stage s)(t := Running c)\<rparr>))
      | _ \<Rightarrow> None)"
| "step P s (LockRejected t) =
     \<comment> \<open>\<open>acquireLock\<close> throws; the operation is skipped.\<close>
     (case (call (P t), stage s t) of
        (WithLock L, Connected c) \<Rightarrow> Some (s\<lparr>stage := (stage s)(t := Finishing c False)\<rparr>)
      | _ \<Rightarrow> None)"
| "step P s (Settle t) =
     \<comment> \<open>The operation returns or throws.\<close>
     (case (call (P t), stage s t) of
        (WithLock L, Running c) \<Rightarrow> Some (s\<lparr>stage := (stage s)(t := Finishing c True)\<rparr>)
      | _ \<Rightarrow> None)"
| "step P s (Unlock t) =
     \<comment> \<open>\<open>releaseLock\<close> in the \<^verbatim>\<open>finally\<close> block.\<close>
     (case (call (P t), stage s t) of
        (WithLock L, Finishing c taken) \<Rightarrow>
          Some (s\<lparr>locks := snd (pg_advisory_unlock c L (locks s)),
                  stage := (stage s)(t := Disconnecting c)\<rparr>)
      | _ \<Rightarrow> None)"
| "step P s (UnlockRejected t) =
     (case (call (P t), stage s t) of
        (WithLock L, Finishing c taken) \<Rightarrow> Some (s\<lparr>stage := (stage s)(t := Disconnecting c)\<rparr>)
      | _ \<Rightarrow> None)"
| "step P s (Probe t) =
     \<comment> \<open>\<open>acquireTryLock\<close>.\<close>
     (case (call (P t), stage s t) of
        (TryLock L, Connected c) \<Rightarrow>
          Some (s\<lparr>locks := snd (pg_try_advisory_lock c L (locks s)),
                  stage := (stage s)(t := Disconnecting c)\<rparr>)
      | _ \<Rightarrow> None)"
| "step P s (ProbeRejected t) =
     (case (call (P t), stage s t) of
        (TryLock L, Connected c) \<Rightarrow> Some (s\<lparr>stage := (stage s)(t := Disconnecting c)\<rparr>)
      | _ \<Rightarrow> None)"
| "step P s (Disconnect t) =
     \<comment> \<open>The connection goes back to the pool; \<open>tryLock\<close> returns.\<close>
     (case (call (P t), stage s t) of
        (WithLock L, Disconnecting c) \<Rightarrow>
          Some (s\<lparr>reserved := (reserved s)(c := None), stage := (stage s)(t := Leaving)\<rparr>)
      | (TryLock L, Disconnecting c) \<Rightarrow>
          Some (s\<lparr>reserved := (reserved s)(c := None), stage := (stage s)(t := Returned)\<rparr>)
      | _ \<Rightarrow> None)"
| "step P s (Leave t) =
     \<comment> \<open>The key is released; \<open>withLock\<close> or \<open>wait\<close> returns.\<close>
     (case (call (P t), stage s t) of
        (WithLock L, Leaving) \<Rightarrow>
          Some (s\<lparr>mutex := (mutex s)((process (P t), L) := None),
                  stage := (stage s)(t := Returned)\<rparr>)
      | (Wait L, Holding) \<Rightarrow>
          Some (s\<lparr>mutex := (mutex s)((process (P t), L) := None),
                  stage := (stage s)(t := Returned)\<rparr>)
      | _ \<Rightarrow> None)"

fun run :: "(nat \<Rightarrow> task) \<Rightarrow> action list \<Rightarrow> system \<Rightarrow> system option" where
  "run P [] s = Some s"
| "run P (a # as) s = (case step P s a of None \<Rightarrow> None | Some s' \<Rightarrow> run P as s')"

fun in_section :: "stage \<Rightarrow> bool" where
  \<comment> \<open>Between the grant of the key and its release.\<close>
  "in_section Called = False"
| "in_section Returned = False"
| "in_section st = True"

fun lock_holder :: "stage \<Rightarrow> connection option" where
  \<comment> \<open>Past \<open>acquireLock\<close> and not yet past \<open>releaseLock\<close>, on which connection.\<close>
  "lock_holder (Running c) = Some c"
| "lock_holder (Finishing c True) = Some c"
| "lock_holder st = None"

fun running :: "stage \<Rightarrow> bool" where
  \<comment> \<open>The operation passed to \<open>withLock\<close> is executing.\<close>
  "running (Running c) = True"
| "running st = False"

fun connection_of :: "stage \<Rightarrow> connection option" where
  "connection_of (Connected c) = Some c"
| "connection_of (Running c) = Some c"
| "connection_of (Finishing c taken) = Some c"
| "connection_of (Disconnecting c) = Some c"
| "connection_of st = None"

text \<open>
  Three facts hold in every state that the calls can reach: a call between the grant and
  the release of its key is the holder of that key in its process; a connection in use by
  a call is reserved for that call; and a \<open>withLock\<close> call past \<open>acquireLock\<close> and not yet
  past \<open>releaseLock\<close> has its connection holding the advisory lock.
\<close>

definition mutex_owned :: "(nat \<Rightarrow> task) \<Rightarrow> system \<Rightarrow> bool" where
  "mutex_owned P s =
     (\<forall>t L. (call (P t) = WithLock L \<or> call (P t) = Wait L) \<and> in_section (stage s t) \<longrightarrow>
              mutex s (process (P t), L) = Some t)"

definition connection_owned :: "system \<Rightarrow> bool" where
  "connection_owned s = (\<forall>t c. connection_of (stage s t) = Some c \<longrightarrow> reserved s c = Some t)"

definition lock_owned :: "(nat \<Rightarrow> task) \<Rightarrow> system \<Rightarrow> bool" where
  "lock_owned P s =
     (\<forall>t L c. call (P t) = WithLock L \<and> lock_holder (stage s t) = Some c \<longrightarrow>
              (\<exists>n. locks s L = Some (c, n)))"

definition invariant :: "(nat \<Rightarrow> task) \<Rightarrow> system \<Rightarrow> bool" where
  "invariant P s = (mutex_owned P s \<and> connection_owned s \<and> lock_owned P s)"

section \<open>Observations on recorded effects and stated properties\<close>

fun retype_targets :: "event list \<Rightarrow> string list" where
  \<comment> \<open>The types the embedding column is set to, in the order of the recorded statements.\<close>
  "retype_targets [] = []"
| "retype_targets (Execute ex (AlterColumnType tb ty) # evs) = ty # retype_targets evs"
| "retype_targets (ev # evs) = retype_targets evs"

definition contains_ignoring_case :: "string \<Rightarrow> string \<Rightarrow> bool" where
  \<comment> \<open>The drift policy in the words of the specification: the text contains the keyword
      case-insensitively when some run of the text equals the keyword up to letter case.\<close>
  "contains_ignoring_case text k = (\<exists>u w v. text = u @ w @ v \<and> toLowerCase w = toLowerCase k)"

definition leaves_lock_alone :: "DatabaseLock \<Rightarrow> (world \<Rightarrow> (error + 'r) \<times> world) \<Rightarrow> world \<Rightarrow> bool" where
  \<comment> \<open>Run from the world \<open>s\<close>, the operation leaves the advisory lock of \<open>lock\<close> as it is.
      An operation passed to \<open>withLock\<close> can do no other: the hold of a session is released
      only through that session, whose connection is reserved for \<open>withLock\<close> itself, and
      no other session obtains the lock meanwhile.\<close>
  "leaves_lock_alone lock op s = (advisory (snd (op s)) lock = advisory s lock)"

definition entered :: "DatabaseLock \<Rightarrow> connection \<Rightarrow> world \<Rightarrow> world" where
  \<comment> \<open>The world in which the operation passed to \<open>withLock\<close> starts: the key of the mutex
      is taken and the advisory lock is held through the reserved connection.\<close>
  "entered lock c s =
     s\<lparr>queues := (queues s)(lock := True),
       advisory := (case pg_advisory_lock c lock (advisory s) of
                      None \<Rightarrow> advisory s
                    | Some held \<Rightarrow> held),
       history := history s @ [Acquired lock, Executed c (Pg_advisory_lock lock)]\<rparr>"

section \<open>Example inputs\<close>




definition example_catalog :: catalog where
  \<comment> \<open>A database after the migrations: both indexes exist with 512-dimensional embeddings,
      the CLIP index was built by the native extension, and a newer major version of each
      extension is available.\<close>
  "example_catalog =
     \<lparr>pg_available_extensions =
        (\<lambda>e. [\<lparr>availableVersion = Some ''2.0.0'', installedVersion = Some ''1.0.0''\<rparr>]),
      pg_stat_all_indexes =
        (\<lambda>i. if i = ''clip_index'' then [Some ''smart_search'']
             else if i = ''face_index'' then [Some ''face_search''] else []),
      pg_attribute =
        (\<lambda>t c. if c = ''embedding'' \<and> (t = ''smart_search'' \<or> t = ''face_search'') then [512] else []),
      pg_indexes =
        [\<lparr>indexdef = ''CREATE INDEX clip_index ON public.smart_search USING hnsw (embedding vector_cosine_ops)'',
          indexname = ''clip_index''\<rparr>]\<rparr>"

definition healthy_catalog :: catalog where
  \<comment> \<open>The same database with the live definitions of both indexes, both built by the
      native extension.\<close>
  "healthy_catalog =
     example_catalog\<lparr>pg_indexes :=
       [\<lparr>indexdef = ''CREATE INDEX clip_index ON public.smart_search USING hnsw (embedding vector_cosine_ops)'',
         indexname = ''clip_index''\<rparr>,
        \<lparr>indexdef = ''CREATE INDEX face_index ON public.face_search USING hnsw (embedding vector_cosine_ops)'',
         indexname = ''face_index''\<rparr>]\<rparr>"

definition untyped_catalog :: catalog where
  \<comment> \<open>The same database while the embedding columns carry no type modifier
      (\<^verbatim>\<open>atttypmod\<close> is \<open>-1\<close>), as for a column of type \<^verbatim>\<open>real[]\<close>.\<close>
  "untyped_catalog = example_catalog\<lparr>pg_attribute := (\<lambda>t c. [- 1])\<rparr>"

definition empty_catalog :: catalog where
  \<comment> \<open>A database in which none of the four queries returns a row.\<close>
  "empty_catalog =
     \<lparr>pg_available_extensions = (\<lambda>e. []), pg_stat_all_indexes = (\<lambda>i. []),
      pg_attribute = (\<lambda>t c. []), pg_indexes = []\<rparr>"



definition idle_world :: world where
  \<comment> \<open>Nothing is held and the driver rejects nothing.\<close>
  "idle_world =
     \<lparr>queues = (\<lambda>k. False), advisory = (\<lambda>k. None), rejects = (\<lambda>c q. None), history = []\<rparr>"

definition unreliable_world :: world where
  \<comment> \<open>As \<open>idle_world\<close>, but the unlock statement for lock 200 is rejected by the driver.\<close>
  "unreliable_world =
     idle_world\<lparr>rejects := (\<lambda>c q. if q = Pg_advisory_unlock 200
                                   then Some (Failure ''canceling statement due to user request'')
                                   else None)\<rparr>"

definition failing_operation :: "world \<Rightarrow> (error + unit) \<times> world" where
  "failing_operation s = (Inl (Failure ''migration failed''), s)"

definition same_lock_callers :: "nat \<Rightarrow> task" where
  \<comment> \<open>Every call is a \<open>withLock\<close> for lock 200 in process 0.\<close>
  "same_lock_callers t = \<lparr>process = 0, call = WithLock 200\<rparr>"

definition two_lock_callers :: "nat \<Rightarrow> task" where
  \<comment> \<open>Call 0 is a \<open>withLock\<close> for lock 100, every other call one for lock 200, all in process 0.\<close>
  "two_lock_callers t = \<lparr>process = 0, call = WithLock (if t = 0 then 100 else 200)\<rparr>"

section \<open>Facts about strings\<close>

lemma sublist_in_right: "sublist k b \<Longrightarrow> sublist k (a @ b)"
  by (auto simp: sublist_def) (metis append.assoc)

lemma sublist_in_left: "sublist k a \<Longrightarrow> sublist k (a @ b)"
  by (auto simp: sublist_def) (metis append.assoc)

lemma str_includes_right: "str_includes b k \<Longrightarrow> str_includes (a @ b) k"
  unfolding str_includes_def by (rule sublist_in_right)

lemma str_includes_left: "str_includes a k \<Longrightarrow> str_includes (a @ b) k"
  unfolding str_includes_def by (rule sublist_in_left)

lemma includes_lower_iff:
  "str_includes (toLowerCase text) (toLowerCase k) \<longleftrightarrow> contains_ignoring_case text k"
  unfolding str_includes_def sublist_def contains_ignoring_case_def toLowerCase_def
  by (auto simp: map_eq_append_conv append_eq_map_conv) metis+

lemma keywords_lower:
  "toLowerCase ''using hnsw'' = ''using hnsw''"
  "toLowerCase ''using vchordrq'' = ''using vchordrq''"
  "toLowerCase ''using vectors'' = ''using vectors''"
  by (simp_all add: toLowerCase_def toLowerChar_def)

lemma String_512: "String 512 = ''512''"
  by (simp add: String_def String_nat.simps)

section \<open>The index statements\<close>

lemma vchordrq_tail:
  "str_includes '' USING vchordrq (embedding vector_cosine_ops) WITH (options = $$\<newline>''
     ''USING vchordrq''"
  unfolding str_includes_def by code_simp

lemma vectors_tail:
  "str_includes '' USING vectors (embedding vector_cos_ops) WITH (options = $$\<newline>''
     ''USING vectors''"
  "str_includes ''        m = 16\<newline>'' ''m = 16''"
  "str_includes ''        ef_construction = 300\<newline>'' ''ef_construction = 300''"
  unfolding str_includes_def by code_simp+

lemma hnsw_tail:
  "str_includes ''        USING hnsw (embedding vector_cosine_ops)'' ''USING hnsw''"
  unfolding str_includes_def by code_simp

lemma createVectorIndex_supported:
  "isVectorExtension e \<Longrightarrow> \<exists>q. createVectorIndex e t i = Inr q"
  by (cases e) (simp_all add: isVectorExtension_def createVectorIndex_def)

text \<open>
  Claim C5. \<open>createVectorIndex\<close> throws the configuration error for every kind that is not
  a vector extension. For each of the three vector extensions it returns text that contains
  the access method of that kind: \<^verbatim>\<open>USING vchordrq\<close> for VectorChord;
  \<^verbatim>\<open>USING vectors\<close> together with the fixed options \<^verbatim>\<open>m = 16\<close> and
  \<^verbatim>\<open>ef_construction = 300\<close> for the legacy pgvecto.rs kind; \<^verbatim>\<open>USING hnsw\<close> for
  pgvector, where the statement ends after the operator class, with no options clause.
\<close>

theorem createVectorIndex_keywords:
  "(\<not> isVectorExtension e \<longrightarrow> createVectorIndex e t i = Inl (Unsupported_vector_extension e))
   \<and> (\<exists>q. createVectorIndex VECTORCHORD t i = Inr q \<and> str_includes q ''USING vchordrq'')
   \<and> (\<exists>q. createVectorIndex VECTORS t i = Inr q \<and> str_includes q ''USING vectors''
          \<and> str_includes q ''m = 16'' \<and> str_includes q ''ef_construction = 300'')
   \<and> (\<exists>q. createVectorIndex VECTOR t i = Inr q \<and> str_includes q ''USING hnsw''
          \<and> suffix ''USING hnsw (embedding vector_cosine_ops)'' q)"
proof (intro conjI impI)
  assume "\<not> isVectorExtension e"
  then show "createVectorIndex e t i = Inl (Unsupported_vector_extension e)"
    by (cases e) (simp_all add: isVectorExtension_def createVectorIndex_def)
next
  show "\<exists>q. createVectorIndex VECTORCHORD t i = Inr q \<and> str_includes q ''USING vchordrq''"
    unfolding createVectorIndex_def DatabaseExtension.case
    by (rule exI, rule conjI, rule refl)
       (blast intro: str_includes_right str_includes_left vchordrq_tail)
next
  show "\<exists>q. createVectorIndex VECTORS t i = Inr q \<and> str_includes q ''USING vectors''
          \<and> str_includes q ''m = 16'' \<and> str_includes q ''ef_construction = 300''"
    unfolding createVectorIndex_def DatabaseExtension.case
    by (rule exI, rule conjI, rule refl, intro conjI)
       (blast intro: str_includes_right str_includes_left vectors_tail)+
next
  show "\<exists>q. createVectorIndex VECTOR t i = Inr q \<and> str_includes q ''USING hnsw''
          \<and> suffix ''USING hnsw (embedding vector_cosine_ops)'' q"
    unfolding createVectorIndex_def DatabaseExtension.case
    apply (rule exI, rule conjI, rule refl, rule conjI)
     apply (blast intro: str_includes_right str_includes_left hnsw_tail)
    apply (simp add: suffix_def)
    done
qed

theorem createVectorIndex_keywords_witness:
  "\<not> isVectorExtension (OtherExtension ''cube'')
   \<and> createVectorIndex (OtherExtension ''cube'') ''smart_search'' ''clip_index''
       = Inl (Unsupported_vector_extension (OtherExtension ''cube''))"
  using createVectorIndex_keywords [of "OtherExtension ''cube''" "''smart_search''" "''clip_index''"]
  by (simp add: isVectorExtension_def)

section \<open>Drift detection\<close>

lemma find_filter_name:
  "find (\<lambda>r. indexname r = n) (filter (\<lambda>row. indexname row = n) rows)
     = find (\<lambda>r. indexname r = n) rows"
  by (induction rows) auto

lemma find_filter_other:
  "n \<noteq> m \<Longrightarrow> find (\<lambda>r. indexname r = n) (filter (\<lambda>row. indexname row = m) rows) = None"
  by (induction rows) auto

lemma find_None_names:
  "find (\<lambda>r. indexname r = n) rows = None \<longleftrightarrow> (\<forall>row\<in>set rows. indexname row \<noteq> n)"
  by (auto simp: find_None_iff)

lemma length_join_commas:
  "names \<noteq> [] \<Longrightarrow> length (join_commas names) = sum_list (map length names) + length names - 1"
  by (induction names rule: join_commas.induct) auto

lemma join_commas_other:
  assumes "2 \<le> length names" and "n \<in> set names"
  shows "n \<noteq> join_commas names"
proof -
  from assms(2) have "length n \<le> sum_list (map length names)"
    by (simp add: member_le_sum_list)
  moreover from assms(1) have "length (join_commas names) = sum_list (map length names) + length names - 1"
    by (intro length_join_commas) auto
  ultimately have "length n < length (join_commas names)" using assms(1) by simp
  then show ?thesis by auto
qed

text \<open>
  For a single name \<open>shouldReindex\<close> is the drift policy of the specification: the index
  is flagged exactly when it has no live definition or the first definition of that name
  does not contain the keyword of the active kind, letter case ignored.
\<close>

lemma shouldReindex_one_name:
  assumes kw: "(e = VECTOR \<and> kw = ''using hnsw'') \<or> (e = VECTORCHORD \<and> kw = ''using vchordrq'')
           \<or> (e = VECTORS \<and> kw = ''using vectors'')"
  shows "shouldReindex e cat [n] =
     Inr [case find (\<lambda>r. indexname r = n) (pg_indexes cat) of
            None \<Rightarrow> True
          | Some r \<Rightarrow> \<not> contains_ignoring_case (indexdef r) kw]"
proof -
  have low: "toLowerCase kw = kw" using kw keywords_lower by auto
  have "\<And>d. str_includes (toLowerCase d) kw = contains_ignoring_case d kw"
    using includes_lower_iff[of _ kw] low by simp
  then show ?thesis using kw
    by (auto simp: shouldReindex_def Let_def find_filter_name split: option.splits)
qed

text \<open>
  For two or more names the query returns no row of any of them, whatever the live
  definitions are, and every index is flagged.
\<close>

lemma shouldReindex_several_names:
  assumes "isVectorExtension e" and "2 \<le> length names"
  shows "shouldReindex e cat names = Inr (map (\<lambda>n. True) names)"
proof -
  have "\<And>n. n \<in> set names \<Longrightarrow>
          find (\<lambda>r. indexname r = n) (filter (\<lambda>row. indexname row = join_commas names) (pg_indexes cat)) = None"
    using join_commas_other[OF assms(2)] by (intro find_filter_other) auto
  then show ?thesis using assms(1)
    by (cases e) (auto simp: shouldReindex_def Let_def isVectorExtension_def)
qed

lemma shouldReindex_unsupported:
  "\<not> isVectorExtension e \<Longrightarrow> shouldReindex e cat names = Inl (Unsupported_vector_extension e)"
  by (cases e) (simp_all add: isVectorExtension_def shouldReindex_def)

lemma example_definition_keywords:
  "contains_ignoring_case
     ''CREATE INDEX clip_index ON public.smart_search USING hnsw (embedding vector_cosine_ops)''
     ''using hnsw''"
  "\<not> contains_ignoring_case
     ''CREATE INDEX clip_index ON public.smart_search USING hnsw (embedding vector_cosine_ops)''
     ''using vchordrq''"
  "contains_ignoring_case
     ''CREATE INDEX face_index ON public.face_search USING hnsw (embedding vector_cosine_ops)''
     ''using hnsw''"
  unfolding includes_lower_iff [symmetric] str_includes_def by code_simp+

lemma healthy_definitions:
  "pg_indexes healthy_catalog =
     [\<lparr>indexdef = ''CREATE INDEX clip_index ON public.smart_search USING hnsw (embedding vector_cosine_ops)'',
       indexname = ''clip_index''\<rparr>,
      \<lparr>indexdef = ''CREATE INDEX face_index ON public.face_search USING hnsw (embedding vector_cosine_ops)'',
       indexname = ''face_index''\<rparr>]"
  by (simp add: healthy_catalog_def example_catalog_def)

text \<open>
  The example of the specification, one index at a time: a live definition that says
  \<^verbatim>\<open>USING hnsw\<close> is flagged when the active kind expects \<^verbatim>\<open>using vchordrq\<close> and is not
  flagged when the active kind is the one that built it.
\<close>

lemma shouldReindex_examples:
  "shouldReindex VECTORCHORD healthy_catalog [CLIP] = Inr [True]"
  "shouldReindex VECTOR healthy_catalog [CLIP] = Inr [False]"
  "shouldReindex VECTOR healthy_catalog [FACE] = Inr [False]"
  by (simp_all add: shouldReindex_one_name healthy_definitions example_definition_keywords
        CLIP_def FACE_def)

text \<open>
  Claim C6 has each index flagged exactly when it has no live definition or its definition
  does not contain the keyword of the active kind, for every list of names. Asked for both
  indexes at once, on a database where both were built by the active kind and neither
  needs a rebuild, \<open>shouldReindex\<close> flags both: the query was given the single name
  \<^verbatim>\<open>clip_index,face_index\<close> and returned no row. Asked for each index alone it flags
  neither.
\<close>

theorem shouldReindex_both_names:
  "shouldReindex VECTOR healthy_catalog [CLIP, FACE] = Inr [True, True]"
  by (simp add: shouldReindex_def healthy_definitions CLIP_def FACE_def)

section \<open>Rebuilding an index: the statements and their order\<close>

lemma example_tables:
  "getIndexTable example_catalog CLIP = Some ''smart_search''"
  "getIndexTable example_catalog FACE = Some ''face_search''"
  "getIndexTable untyped_catalog CLIP = Some ''smart_search''"
  "getIndexTable untyped_catalog FACE = Some ''face_search''"
  "getIndexTable empty_catalog CLIP = None"
  by (simp_all add: getIndexTable_def example_catalog_def untyped_catalog_def empty_catalog_def
        CLIP_def FACE_def)

lemma example_dims:
  "pg_attribute example_catalog ''smart_search'' ''embedding'' = [512]"
  "pg_attribute example_catalog ''face_search'' ''embedding'' = [512]"
  "getDimSize example_catalog ''smart_search'' = Inr 512"
  "getDimSize example_catalog ''face_search'' = Inr 512"
  "getDimSize untyped_catalog t = Inl Could_not_retrieve_dimension_size"
  by (simp_all add: getDimSize_def isValidInteger_def example_catalog_def untyped_catalog_def)



lemma getDimSize_valid:
  "pg_attribute cat table ''embedding'' = d # rest \<Longrightarrow> 1 \<le> d \<Longrightarrow> d \<le> 65536 \<Longrightarrow>
   getDimSize cat table = Inr d"
  by (simp add: getDimSize_def isValidInteger_def)

lemma getDimSize_invalid:
  "\<forall>d rest. pg_attribute cat table ''embedding'' = d # rest \<longrightarrow> d < 1 \<or> 65536 < d \<Longrightarrow>
   getDimSize cat table = Inl Could_not_retrieve_dimension_size"
  by (cases "pg_attribute cat table ''embedding''") (auto simp: getDimSize_def isValidInteger_def)

lemma getDimSize_range: "getDimSize cat table = Inr d \<Longrightarrow> 1 \<le> d \<and> d \<le> 65536"
  by (auto simp: getDimSize_def isValidInteger_def Let_def split: list.splits if_splits option.splits)

text \<open>
  Claim C7. Let the owning table of the index resolve (to a non-empty name) and let the
  active kind be a vector extension. If the first \<^verbatim>\<open>atttypmod\<close> row of the embedding
  column is an integer \<open>d\<close> with \<open>1 \<le> d \<le> 65536\<close>, then \<open>reindex\<close> succeeds and issues,
  after opening its transaction, the index drop through the pool (outside the transaction),
  then on the transaction the retype to \<^verbatim>\<open>real[]\<close>, the retype to a vector type sized
  \<open>d\<close>, and the index-creation statement of the active kind, and commits. If there is no
  such row or the value is out of range, \<open>reindex\<close> fails having issued no statement.
\<close>

theorem reindex_steps:
  assumes table: "getIndexTable cat index = Some table" "table \<noteq> []"
      and kind: "isVectorExtension e"
  shows "(\<forall>d rest. pg_attribute cat table ''embedding'' = d # rest \<and> 1 \<le> d \<and> d \<le> 65536 \<longrightarrow>
            (\<exists>ty q. createVectorIndex e table index = Inr q
               \<and> suffix (''vector('' @ String d @ '')'') ty
               \<and> reindex e cat index =
                   (Inr (), [Log (''Reindexing '' @ index), Begin,
                             Execute Db (DropIndexIfExists index),
                             Execute Tx (AlterColumnType table ''real[]''),
                             Execute Tx (AlterColumnType table ty),
                             Execute Tx (RawSql q), Commit])))
       \<and> ((\<forall>d rest. pg_attribute cat table ''embedding'' = d # rest \<longrightarrow> d < 1 \<or> 65536 < d) \<longrightarrow>
            reindex e cat index =
              (Inl Could_not_retrieve_dimension_size, [Log (''Reindexing '' @ index)]))"
proof (intro conjI allI impI)
  fix d rest
  assume d: "pg_attribute cat table ''embedding'' = d # rest \<and> 1 \<le> d \<and> d \<le> 65536"
  then have dim: "getDimSize cat table = Inr d" by (simp add: getDimSize_valid)
  from kind obtain q where q: "createVectorIndex e table index = Inr q"
    using createVectorIndex_supported by blast
  let ?ty = "(if e = VECTORS then ''vectors.'' else '''') @ ''vector('' @ String d @ '')''"
  have "suffix (''vector('' @ String d @ '')'') ?ty"
    by (simp add: suffix_def)
  moreover have "reindex e cat index =
                   (Inr (), [Log (''Reindexing '' @ index), Begin,
                             Execute Db (DropIndexIfExists index),
                             Execute Tx (AlterColumnType table ''real[]''),
                             Execute Tx (AlterColumnType table ?ty),
                             Execute Tx (RawSql q), Commit])"
    using table dim q by (simp add: reindex_def transaction_def Let_def)
  ultimately show "\<exists>ty q. createVectorIndex e table index = Inr q
               \<and> suffix (''vector('' @ String d @ '')'') ty
               \<and> reindex e cat index =
                   (Inr (), [Log (''Reindexing '' @ index), Begin,
                             Execute Db (DropIndexIfExists index),
                             Execute Tx (AlterColumnType table ''real[]''),
                             Execute Tx (AlterColumnType table ty),
                             Execute Tx (RawSql q), Commit])"
    using q by blast
next
  assume "\<forall>d rest. pg_attribute cat table ''embedding'' = d # rest \<longrightarrow> d < 1 \<or> 65536 < d"
  then have "getDimSize cat table = Inl Could_not_retrieve_dimension_size"
    by (rule getDimSize_invalid)
  then show "reindex e cat index =
              (Inl Could_not_retrieve_dimension_size, [Log (''Reindexing '' @ index)])"
    using table by (simp add: reindex_def Let_def)
qed

theorem reindex_steps_witness:
  "getIndexTable example_catalog CLIP = Some ''smart_search'' \<and> ''smart_search'' \<noteq> []
   \<and> isVectorExtension VECTORCHORD
   \<and> (\<exists>ty q. createVectorIndex VECTORCHORD ''smart_search'' CLIP = Inr q
         \<and> suffix ''vector(512)'' ty
         \<and> reindex VECTORCHORD example_catalog CLIP =
             (Inr (), [Log (''Reindexing '' @ CLIP), Begin,
                       Execute Db (DropIndexIfExists CLIP),
                       Execute Tx (AlterColumnType ''smart_search'' ''real[]''),
                       Execute Tx (AlterColumnType ''smart_search'' ty),
                       Execute Tx (RawSql q), Commit]))"
proof -
  have t: "getIndexTable example_catalog CLIP = Some ''smart_search''" by (rule example_tables)
  have n: "''smart_search'' \<noteq> []" by simp
  have k: "isVectorExtension VECTORCHORD" by (simp add: isVectorExtension_def)
  from reindex_steps [OF t n k] example_dims(1) String_512 t k show ?thesis by simp
qed

text \<open>
  Claim C8. When the owning table of the index does not resolve (no row, a null
  \<^verbatim>\<open>relname\<close>, or an empty one), \<open>reindex\<close> logs the miss as a warning, returns without
  a failure and issues no statement at all.
\<close>

theorem reindex_soft_miss:
  assumes "getIndexTable cat index = None \<or> getIndexTable cat index = Some []"
  shows "reindex e cat index =
           (Inr (), [Log (''Reindexing '' @ index), Warn (''Could not find table for index '' @ index)])
         \<and> (\<forall>ex st. Execute ex st \<notin> set (snd (reindex e cat index)))"
  using assms by (auto simp: reindex_def Let_def)

theorem reindex_soft_miss_witness:
  "getIndexTable empty_catalog CLIP = None
   \<and> reindex VECTOR empty_catalog CLIP =
       (Inr (), [Log ''Reindexing clip_index'', Warn ''Could not find table for index clip_index''])"
  using reindex_soft_miss [of empty_catalog CLIP VECTOR] example_tables(5)
  by (simp add: CLIP_def)

text \<open>
  Claim C10. When \<open>reindex\<close> reaches its transaction with the dimension size \<open>d\<close>, the
  column is retyped twice, first to \<^verbatim>\<open>real[]\<close> and finally to \<^verbatim>\<open>vectors.vector(d)\<close>
  when the active kind is \<open>VECTORS\<close>, and to the unqualified \<^verbatim>\<open>vector(d)\<close> for every
  other kind.
\<close>

theorem reindex_retype_target:
  assumes "getIndexTable cat index = Some table" "table \<noteq> []" "getDimSize cat table = Inr d"
  shows "retype_targets (snd (reindex e cat index)) =
           [''real[]'', (if e = VECTORS then ''vectors.vector('' else ''vector('') @ String d @ '')'']"
  using assms
  by (cases "createVectorIndex e table index")
     (simp_all add: reindex_def transaction_def Let_def)


theorem reindex_retype_target_witness:
  "getIndexTable example_catalog CLIP = Some ''smart_search'' \<and> ''smart_search'' \<noteq> []
   \<and> getDimSize example_catalog ''smart_search'' = Inr 512
   \<and> retype_targets (snd (reindex VECTORS example_catalog CLIP)) = [''real[]'', ''vectors.vector(512)'']
   \<and> retype_targets (snd (reindex VECTOR example_catalog CLIP)) = [''real[]'', ''vector(512)'']"
  using reindex_retype_target [OF example_tables(1) _ example_dims(3), of VECTORS]
        reindex_retype_target [OF example_tables(1) _ example_dims(3), of VECTOR]
        example_tables(1) example_dims(3) String_512
  by simp

section \<open>Upgrading an extension: restart or rebuild\<close>









section \<open>The lock coordinator: one call\<close>

lemma pg_lock_unlock:
  "pg_advisory_lock c k held = Some held' \<Longrightarrow> snd (pg_advisory_unlock c k held') k = held k"
  by (auto simp: pg_advisory_lock_def pg_advisory_unlock_def split: option.splits if_splits)

lemma pg_lock_holder:
  "pg_advisory_lock c k held = Some held' \<Longrightarrow> \<exists>n. held' k = Some (c, n)"
  by (auto simp: pg_advisory_lock_def split: option.splits if_splits)

lemma pg_unlock_at:
  "h1 k = h2 k \<Longrightarrow> snd (pg_advisory_unlock c k h1) k = snd (pg_advisory_unlock c k h2) k"
  by (auto simp: pg_advisory_unlock_def split: option.splits nat.splits)

lemma withLock_returns:
  assumes "\<not> queues s lock" and "advisory s lock = None \<or> (\<exists>n. advisory s lock = Some (c, n))"
  shows "\<exists>out. withLock lock c op s = Some out"
  using assms
  by (auto simp: withLock_def asyncLock_acquire_def acquireLock_def pg_advisory_lock_def Let_def
           split: option.splits prod.splits sum.splits)

lemma idle_world_simps:
  "queues idle_world k = False" "advisory idle_world k = None" "rejects idle_world c q = None"
  "history idle_world = []"
  by (simp_all add: idle_world_def)

lemma unreliable_world_simps:
  "queues unreliable_world k = False" "advisory unreliable_world k = None"
  "rejects unreliable_world c (Pg_advisory_lock k) = None"
  "rejects unreliable_world c (Pg_advisory_unlock 200) = Some (Failure ''canceling statement due to user request'')"
  "history unreliable_world = []"
  by (simp_all add: unreliable_world_def idle_world_def)

lemma failing_operation_frame: "leaves_lock_alone k failing_operation s"
  by (simp add: leaves_lock_alone_def failing_operation_def)

lemma tryLock_leaves_lock_alone:
  assumes "advisory s lock = Some (c, n)" and "d \<noteq> c"
  shows "leaves_lock_alone lock (tryLock k d) s"
  using assms
  by (auto simp: leaves_lock_alone_def tryLock_def acquireTryLock_def pg_try_advisory_lock_def
        pg_advisory_lock_def Let_def split: option.splits)

lemma withLock_idle_failing:
  "withLock 200 7 failing_operation idle_world =
     Some (Inl (Failure ''migration failed''),
           idle_world\<lparr>history := [Acquired 200, Executed 7 (Pg_advisory_lock 200),
                                   Executed 7 (Pg_advisory_unlock 200), Released 200]\<rparr>)"
  by (simp add: withLock_def asyncLock_acquire_def acquireLock_def releaseLock_def try_finally_def
        pg_advisory_lock_def pg_advisory_unlock_def failing_operation_def idle_world_def Let_def
        fun_upd_idem)

text \<open>
  Claim C1, as amended. Let the operation leave the advisory lock of \<open>L\<close> as it finds
  it, and let the lock statement be accepted, so that the operation runs. When
  \<open>withLock\<close> exits, the operation has run with the key of the mutex taken and the
  advisory lock held through the reserved connection, and the key of the mutex has been
  released. If the unlock statement is accepted, the advisory lock of \<open>L\<close> is again as it
  was before the call (the hold was released through the same connection) and the outcome
  of \<open>withLock\<close> is the outcome of the operation, its value or its failure unchanged. If
  the unlock statement is rejected, that rejection is the outcome of \<open>withLock\<close>, whatever
  the operation returned or threw, and the connection still holds the advisory lock.
\<close>

theorem withLock_exits:
  assumes frame: "leaves_lock_alone lock op (entered lock c s)"
      and accepted: "rejects s c (Pg_advisory_lock lock) = None"
      and exit: "withLock lock c op s = Some (res, s')"
  shows "\<not> queues s lock \<and> queues (entered lock c s) lock
         \<and> (\<exists>n. advisory (entered lock c s) lock = Some (c, n))
         \<and> \<not> queues s' lock
         \<and> (case rejects (snd (op (entered lock c s))) c (Pg_advisory_unlock lock) of
               None \<Rightarrow> res = fst (op (entered lock c s)) \<and> advisory s' lock = advisory s lock
             | Some e \<Rightarrow> res = Inl e \<and> advisory s' lock = advisory (snd (op (entered lock c s))) lock)"
proof -
  from exit have free: "\<not> queues s lock"
    by (auto simp: withLock_def asyncLock_acquire_def split: if_splits)
  from exit free accepted obtain held where
    held: "pg_advisory_lock c lock (advisory s) = Some held"
    by (auto simp: withLock_def asyncLock_acquire_def acquireLock_def split: option.splits)
  let ?s1 = "entered lock c s"
  obtain r s2 where op: "op ?s1 = (r, s2)" by (cases "op ?s1")
  have s1: "queues ?s1 lock" "advisory ?s1 = held"
    using held by (simp_all add: entered_def)
  from frame have fr: "advisory s2 lock = held lock"
    using op s1 unfolding leaves_lock_alone_def by simp
  let ?fin = "try_finally r (releaseLock lock c s2)"
  have run: "withLock lock c op s =
     Some (fst ?fin, (snd ?fin)\<lparr>queues := (queues (snd ?fin))(lock := False),
                               history := history (snd ?fin) @ [Released lock]\<rparr>)"
    using free accepted held op
    by (simp add: withLock_def asyncLock_acquire_def acquireLock_def entered_def Let_def
             split: prod.splits)
  have "\<exists>n. advisory ?s1 lock = Some (c, n)"
    using pg_lock_holder[OF held] s1 by simp
  moreover have "\<not> queues s' lock" using exit run by auto
  moreover have "case rejects s2 c (Pg_advisory_unlock lock) of
                 None \<Rightarrow> res = r \<and> advisory s' lock = advisory s lock
               | Some e \<Rightarrow> res = Inl e \<and> advisory s' lock = advisory s2 lock"
  proof (cases "rejects s2 c (Pg_advisory_unlock lock)")
    case None
    have "snd (pg_advisory_unlock c lock (advisory s2)) lock = snd (pg_advisory_unlock c lock held) lock"
      using fr by (intro pg_unlock_at) simp
    also have "\<dots> = advisory s lock" by (rule pg_lock_unlock[OF held])
    finally show ?thesis using None exit run
      by (auto simp: try_finally_def releaseLock_def)
  next
    case (Some e)
    then show ?thesis using exit run
      by (auto simp: try_finally_def releaseLock_def)
  qed
  ultimately show ?thesis using op free s1(1) by (simp split: option.splits)
qed

theorem withLock_exits_witness:
  "leaves_lock_alone 200 failing_operation (entered 200 7 idle_world)
   \<and> rejects idle_world 7 (Pg_advisory_lock 200) = None
   \<and> withLock 200 7 failing_operation idle_world =
       Some (Inl (Failure ''migration failed''),
             idle_world\<lparr>history := [Acquired 200, Executed 7 (Pg_advisory_lock 200),
                                     Executed 7 (Pg_advisory_unlock 200), Released 200]\<rparr>)
   \<and> fst (failing_operation (entered 200 7 idle_world)) = Inl (Failure ''migration failed'')
   \<and> queues (entered 200 7 idle_world) 200
   \<and> (\<exists>n. advisory (entered 200 7 idle_world) 200 = Some (7, n))"
  using withLock_exits [OF failing_operation_frame idle_world_simps(3) withLock_idle_failing]
    failing_operation_frame idle_world_simps(3) withLock_idle_failing
  by (simp add: failing_operation_def)

text \<open>
  The claim as first stated promises the release of the advisory lock and the propagation
  of the operation's failure on every exit. Here the operation throws
  \<^verbatim>\<open>migration failed\<close> and the driver then rejects the unlock statement: the caller
  receives the driver's failure instead, and the session of connection 7 still holds
  lock 200 when the connection goes back to the pool.
\<close>

theorem withLock_release_rejected:
  "withLock 200 7 failing_operation unreliable_world =
     Some (Inl (Failure ''canceling statement due to user request''),
           unreliable_world\<lparr>advisory := (advisory unreliable_world)(200 \<mapsto> (7, 0)),
                            history := [Acquired 200, Executed 7 (Pg_advisory_lock 200),
                                        Rejected 7 (Pg_advisory_unlock 200), Released 200]\<rparr>)"
  by (simp add: withLock_def asyncLock_acquire_def acquireLock_def releaseLock_def try_finally_def
        pg_advisory_lock_def failing_operation_def unreliable_world_def idle_world_def Let_def
        fun_upd_idem)

text \<open>
  Claim C3, as amended. \<open>tryLock\<close> issues the one non-blocking statement
  \<^verbatim>\<open>pg_try_advisory_lock\<close> on its connection and does not touch the mutex; when the
  statement is accepted it returns whether the lock was obtained, which is the case exactly
  when the lock was free or already held by the session of that connection. When it
  returns true the advisory lock is held by that session after \<open>tryLock\<close> has returned
  (no unlock is issued); when it returns false the advisory locks are unchanged. No other
  lock is affected.
\<close>

theorem tryLock_probe:
  assumes "rejects s c (Pg_try_advisory_lock lock) = None"
  shows "\<exists>got s'. tryLock lock c s = (Inr got, s')
           \<and> queues s' = queues s
           \<and> history s' = history s @ [Executed c (Pg_try_advisory_lock lock)]
           \<and> (got \<longleftrightarrow> advisory s lock = None \<or> (\<exists>n. advisory s lock = Some (c, n)))
           \<and> (if got then (\<exists>n. advisory s' lock = Some (c, n)) \<and> advisory s' lock \<noteq> advisory s lock
               else advisory s' = advisory s)
           \<and> (\<forall>k. k \<noteq> lock \<longrightarrow> advisory s' k = advisory s k)"
  using assms
  by (auto simp: tryLock_def acquireTryLock_def pg_try_advisory_lock_def pg_advisory_lock_def Let_def
           split: option.splits)

theorem tryLock_probe_witness:
  "rejects idle_world 7 (Pg_try_advisory_lock 200) = None
   \<and> (\<exists>got s'. tryLock 200 7 idle_world = (Inr got, s') \<and> got
         \<and> queues s' = queues idle_world \<and> (\<exists>n. advisory s' 200 = Some (7, n)))"
proof -
  have r: "rejects idle_world 7 (Pg_try_advisory_lock 200) = None" by (rule idle_world_simps)
  obtain got s' where t: "tryLock 200 7 idle_world = (Inr got, s')" "queues s' = queues idle_world"
    and g: "got \<longleftrightarrow> advisory idle_world 200 = None \<or> (\<exists>n. advisory idle_world 200 = Some (7, n))"
    and h: "if got then (\<exists>n. advisory s' 200 = Some (7, n)) \<and> advisory s' 200 \<noteq> advisory idle_world 200
            else advisory s' = advisory idle_world"
    using tryLock_probe [OF r] by (elim exE conjE) (rule that, assumption+)
  from g have "got" by (simp add: idle_world_simps)
  with h have "\<exists>n. advisory s' 200 = Some (7, n)" by simp
  with t \<open>got\<close> r show ?thesis by blast
qed

text \<open>
  The claim as first stated has the lock as free after the probe as before it. On a
  database where nothing is held, \<open>tryLock\<close> on connection 7 returns true and leaves
  lock 200 held by that session, so that a probe from connection 8 is then refused.
\<close>

theorem tryLock_keeps_lock:
  "advisory idle_world 200 = None
   \<and> tryLock 200 7 idle_world =
       (Inr True, idle_world\<lparr>advisory := (advisory idle_world)(200 \<mapsto> (7, 0)),
                             history := [Executed 7 (Pg_try_advisory_lock 200)]\<rparr>)
   \<and> fst (tryLock 200 8 (snd (tryLock 200 7 idle_world))) = Inr False"
  by (simp add: tryLock_def acquireTryLock_def pg_try_advisory_lock_def pg_advisory_lock_def
        idle_world_def Let_def)

text \<open>
  Claim C9, as amended. \<open>wait\<close> takes the key of the in-process mutex for \<open>L\<close> itself:
  while the key is taken the caller stays suspended; once it is free, \<open>wait\<close> acquires
  it, runs an empty function, releases it and returns. On return the mutex is as before,
  and the advisory locks of the database were never touched.
\<close>

theorem wait_turn:
  "(queues s lock \<longrightarrow> wait lock s = None)
   \<and> (\<not> queues s lock \<longrightarrow>
        (\<exists>s'. wait lock s = Some (Inr (), s') \<and> queues s' = queues s \<and> advisory s' = advisory s
            \<and> history s' = history s @ [Acquired lock, Released lock]))"
  by (auto simp: wait_def asyncLock_acquire_def fun_upd_idem)

theorem wait_turn_witness:
  "\<not> queues idle_world 200
   \<and> (\<exists>s'. wait 200 idle_world = Some (Inr (), s') \<and> queues s' = queues idle_world
         \<and> advisory s' = advisory idle_world
         \<and> history s' = history idle_world @ [Acquired 200, Released 200])"
  using wait_turn [of idle_world 200] by (simp add: idle_world_simps)

text \<open>
  The claim as first stated has \<open>wait\<close> acquire nothing, the in-process mutex included.
  On an idle process the call acquires and releases the key of lock 200.
\<close>

theorem wait_acquires_mutex:
  "wait 200 idle_world = Some (Inr (), idle_world\<lparr>history := [Acquired 200, Released 200]\<rparr>)"
  by (simp add: wait_def asyncLock_acquire_def idle_world_def fun_upd_idem)

section \<open>The lock coordinator: concurrent calls\<close>

lemma pg_lock_other:
  "pg_advisory_lock c k held = Some held' \<Longrightarrow> held k' = Some (d, n) \<Longrightarrow> d \<noteq> c \<Longrightarrow>
   held' k' = Some (d, n)"
  by (auto simp: pg_advisory_lock_def split: option.splits if_splits)

lemma pg_unlock_other:
  "held k' = Some (d, n) \<Longrightarrow> d \<noteq> c \<Longrightarrow> snd (pg_advisory_unlock c k held) k' = Some (d, n)"
  by (auto simp: pg_advisory_unlock_def split: option.splits nat.splits)

lemma pg_try_other:
  "held k' = Some (d, n) \<Longrightarrow> d \<noteq> c \<Longrightarrow> snd (pg_try_advisory_lock c k held) k' = Some (d, n)"
  by (auto simp: pg_try_advisory_lock_def pg_advisory_lock_def split: option.splits if_splits)

lemma step_Enter:
  "step P s (Enter t) = Some s' \<Longrightarrow>
   \<exists>L. (call (P t) = WithLock L \<or> call (P t) = Wait L) \<and> stage s t = Called
       \<and> mutex s (process (P t), L) = None
       \<and> s' = s\<lparr>mutex := (mutex s)((process (P t), L) \<mapsto> t), stage := (stage s)(t := Holding)\<rparr>"
  by (auto split: call.splits stage.splits if_splits)

lemma step_Connect:
  "step P s (Connect t c) = Some s' \<Longrightarrow>
   reserved s c = None
   \<and> (\<exists>L. call (P t) = WithLock L \<and> stage s t = Holding
          \<or> call (P t) = TryLock L \<and> stage s t = Called)
   \<and> s' = s\<lparr>reserved := (reserved s)(c \<mapsto> t), stage := (stage s)(t := Connected c)\<rparr>"
  by (auto split: call.splits stage.splits if_splits)

lemma step_Lock:
  "step P s (Lock t) = Some s' \<Longrightarrow>
   \<exists>L c held. call (P t) = WithLock L \<and> stage s t = Connected c
       \<and> pg_advisory_lock c L (locks s) = Some held
       \<and> s' = s\<lparr>locks := held, stage := (stage s)(t := Running c)\<rparr>"
  by (auto split: call.splits stage.splits option.splits)

lemma step_LockRejected:
  "step P s (LockRejected t) = Some s' \<Longrightarrow>
   \<exists>c. stage s t = Connected c \<and> s' = s\<lparr>stage := (stage s)(t := Finishing c False)\<rparr>"
  by (auto split: call.splits stage.splits)

lemma step_Settle:
  "step P s (Settle t) = Some s' \<Longrightarrow>
   \<exists>c. stage s t = Running c \<and> s' = s\<lparr>stage := (stage s)(t := Finishing c True)\<rparr>"
  by (auto split: call.splits stage.splits)

lemma step_Unlock:
  "step P s (Unlock t) = Some s' \<Longrightarrow>
   \<exists>L c taken. call (P t) = WithLock L \<and> stage s t = Finishing c taken
       \<and> s' = s\<lparr>locks := snd (pg_advisory_unlock c L (locks s)),
                 stage := (stage s)(t := Disconnecting c)\<rparr>"
  by (auto split: call.splits stage.splits)

lemma step_UnlockRejected:
  "step P s (UnlockRejected t) = Some s' \<Longrightarrow>
   \<exists>c taken. stage s t = Finishing c taken \<and> s' = s\<lparr>stage := (stage s)(t := Disconnecting c)\<rparr>"
  by (auto split: call.splits stage.splits)

lemma step_Probe:
  "step P s (Probe t) = Some s' \<Longrightarrow>
   \<exists>L c. call (P t) = TryLock L \<and> stage s t = Connected c
       \<and> s' = s\<lparr>locks := snd (pg_try_advisory_lock c L (locks s)),
                 stage := (stage s)(t := Disconnecting c)\<rparr>"
  by (auto split: call.splits stage.splits)

lemma step_ProbeRejected:
  "step P s (ProbeRejected t) = Some s' \<Longrightarrow>
   \<exists>c. stage s t = Connected c \<and> s' = s\<lparr>stage := (stage s)(t := Disconnecting c)\<rparr>"
  by (auto split: call.splits stage.splits)

lemma step_Disconnect:
  "step P s (Disconnect t) = Some s' \<Longrightarrow>
   \<exists>c st. stage s t = Disconnecting c \<and> (st = Leaving \<or> st = Returned)
       \<and> s' = s\<lparr>reserved := (reserved s)(c := None), stage := (stage s)(t := st)\<rparr>"
  by (auto split: call.splits stage.splits)

lemma step_Leave:
  "step P s (Leave t) = Some s' \<Longrightarrow>
   \<exists>L. (call (P t) = WithLock L \<and> stage s t = Leaving \<or> call (P t) = Wait L \<and> stage s t = Holding)
       \<and> s' = s\<lparr>mutex := (mutex s)((process (P t), L) := None), stage := (stage s)(t := Returned)\<rparr>"
  by (auto split: call.splits stage.splits)

lemma step_mutex_owned:
  assumes "step P s a = Some s'" and "mutex_owned P s"
  shows "mutex_owned P s'"
proof (cases a)
  case (Enter t)
  from step_Enter[OF assms(1)[unfolded Enter]] assms(2) show ?thesis
    unfolding mutex_owned_def by (fastforce split: if_splits)
next
  case (Connect t c)
  from step_Connect[OF assms(1)[unfolded Connect]] assms(2) show ?thesis
    unfolding mutex_owned_def by (fastforce split: if_splits)
next
  case (Lock t)
  from step_Lock[OF assms(1)[unfolded Lock]] assms(2) show ?thesis
    unfolding mutex_owned_def by (fastforce split: if_splits)
next
  case (LockRejected t)
  from step_LockRejected[OF assms(1)[unfolded LockRejected]] assms(2) show ?thesis
    unfolding mutex_owned_def by (fastforce split: if_splits)
next
  case (Settle t)
  from step_Settle[OF assms(1)[unfolded Settle]] assms(2) show ?thesis
    unfolding mutex_owned_def by (fastforce split: if_splits)
next
  case (Unlock t)
  from step_Unlock[OF assms(1)[unfolded Unlock]] assms(2) show ?thesis
    unfolding mutex_owned_def by (fastforce split: if_splits)
next
  case (UnlockRejected t)
  from step_UnlockRejected[OF assms(1)[unfolded UnlockRejected]] assms(2) show ?thesis
    unfolding mutex_owned_def by (fastforce split: if_splits)
next
  case (Probe t)
  from step_Probe[OF assms(1)[unfolded Probe]] assms(2) show ?thesis
    unfolding mutex_owned_def by (fastforce split: if_splits)
next
  case (ProbeRejected t)
  from step_ProbeRejected[OF assms(1)[unfolded ProbeRejected]] assms(2) show ?thesis
    unfolding mutex_owned_def by (fastforce split: if_splits)
next
  case (Disconnect t)
  from step_Disconnect[OF assms(1)[unfolded Disconnect]] assms(2) show ?thesis
    unfolding mutex_owned_def by (fastforce split: if_splits)
next
  case (Leave t)
  from step_Leave[OF assms(1)[unfolded Leave]] obtain L where
    at: "call (P t) = WithLock L \<and> stage s t = Leaving \<or> call (P t) = Wait L \<and> stage s t = Holding"
    and s': "s' = s\<lparr>mutex := (mutex s)((process (P t), L) := None),
                     stage := (stage s)(t := Returned)\<rparr>"
    by blast
  from at assms(2) have own: "mutex s (process (P t), L) = Some t"
    unfolding mutex_owned_def by auto
  show ?thesis
    unfolding mutex_owned_def
  proof (intro allI impI)
    fix u K
    assume h: "(call (P u) = WithLock K \<or> call (P u) = Wait K) \<and> in_section (stage s' u)"
    then have u: "u \<noteq> t" using s' by auto
    with h s' have "in_section (stage s u)" by simp
    with h assms(2) have m: "mutex s (process (P u), K) = Some u"
      unfolding mutex_owned_def by blast
    with own u have "(process (P u), K) \<noteq> (process (P t), L)" by auto
    with m s' show "mutex s' (process (P u), K) = Some u" by simp
  qed
qed

lemma step_connection_owned:
  assumes "step P s a = Some s'" and "connection_owned s"
  shows "connection_owned s'"
proof (cases a)
  case (Enter t)
  from step_Enter[OF assms(1)[unfolded Enter]] assms(2) show ?thesis
    unfolding connection_owned_def by (fastforce split: if_splits)
next
  case (Connect t c)
  from step_Connect[OF assms(1)[unfolded Connect]] assms(2) show ?thesis
    unfolding connection_owned_def by (fastforce split: if_splits)
next
  case (Lock t)
  from step_Lock[OF assms(1)[unfolded Lock]] assms(2) show ?thesis
    unfolding connection_owned_def by (fastforce split: if_splits)
next
  case (LockRejected t)
  from step_LockRejected[OF assms(1)[unfolded LockRejected]] assms(2) show ?thesis
    unfolding connection_owned_def by (fastforce split: if_splits)
next
  case (Settle t)
  from step_Settle[OF assms(1)[unfolded Settle]] assms(2) show ?thesis
    unfolding connection_owned_def by (fastforce split: if_splits)
next
  case (Unlock t)
  from step_Unlock[OF assms(1)[unfolded Unlock]] assms(2) show ?thesis
    unfolding connection_owned_def by (fastforce split: if_splits)
next
  case (UnlockRejected t)
  from step_UnlockRejected[OF assms(1)[unfolded UnlockRejected]] assms(2) show ?thesis
    unfolding connection_owned_def by (fastforce split: if_splits)
next
  case (Probe t)
  from step_Probe[OF assms(1)[unfolded Probe]] assms(2) show ?thesis
    unfolding connection_owned_def by (fastforce split: if_splits)
next
  case (ProbeRejected t)
  from step_ProbeRejected[OF assms(1)[unfolded ProbeRejected]] assms(2) show ?thesis
    unfolding connection_owned_def by (fastforce split: if_splits)
next
  case (Disconnect t)
  from step_Disconnect[OF assms(1)[unfolded Disconnect]] obtain c st where
    at: "stage s t = Disconnecting c" and "st = Leaving \<or> st = Returned"
    and s': "s' = s\<lparr>reserved := (reserved s)(c := None), stage := (stage s)(t := st)\<rparr>"
    by blast
  then have st: "connection_of st = None" by auto
  from at assms(2) have own: "reserved s c = Some t"
    unfolding connection_owned_def by simp
  show ?thesis
    unfolding connection_owned_def
  proof (intro allI impI)
    fix u d
    assume h: "connection_of (stage s' u) = Some d"
    then have u: "u \<noteq> t" using s' st by auto
    with h s' have "connection_of (stage s u) = Some d" by simp
    with assms(2) have m: "reserved s d = Some u"
      unfolding connection_owned_def by blast
    with own u have "d \<noteq> c" by auto
    with m s' show "reserved s' d = Some u" by simp
  qed
next
  case (Leave t)
  from step_Leave[OF assms(1)[unfolded Leave]] assms(2) show ?thesis
    unfolding connection_owned_def by (fastforce split: if_splits)
qed

lemma lock_holder_connection: "lock_holder st = Some c \<Longrightarrow> connection_of st = Some c"
  by (induction st rule: lock_holder.induct) auto

lemma other_connection:
  assumes "connection_owned s" and "connection_of (stage s t) = Some c"
      and "lock_holder (stage s u) = Some d" and "u \<noteq> t"
  shows "d \<noteq> c"
proof
  assume "d = c"
  with assms(1,3) have "reserved s c = Some u"
    unfolding connection_owned_def using lock_holder_connection by blast
  moreover from assms(1,2) have "reserved s c = Some t"
    unfolding connection_owned_def by blast
  ultimately show False using assms(4) by simp
qed

lemma step_lock_owned:
  assumes "step P s a = Some s'" and "lock_owned P s" and "connection_owned s"
  shows "lock_owned P s'"
proof (cases a)
  case (Enter t)
  from step_Enter[OF assms(1)[unfolded Enter]] assms(2) show ?thesis
    unfolding lock_owned_def by (fastforce split: if_splits)
next
  case (Connect t c)
  from step_Connect[OF assms(1)[unfolded Connect]] assms(2) show ?thesis
    unfolding lock_owned_def by (fastforce split: if_splits)
next
  case (Lock t)
  from step_Lock[OF assms(1)[unfolded Lock]] obtain L c held where
    call: "call (P t) = WithLock L" and at: "stage s t = Connected c"
    and held: "pg_advisory_lock c L (locks s) = Some held"
    and s': "s' = s\<lparr>locks := held, stage := (stage s)(t := Running c)\<rparr>"
    by blast
  show ?thesis
    unfolding lock_owned_def
  proof (intro allI impI)
    fix u K d
    assume h: "call (P u) = WithLock K \<and> lock_holder (stage s' u) = Some d"
    show "\<exists>n. locks s' K = Some (d, n)"
    proof (cases "u = t")
      case True
      with h s' call have "K = L" "d = c" by auto
      with pg_lock_holder[OF held] s' show ?thesis by simp
    next
      case False
      with h s' have holder: "lock_holder (stage s u) = Some d" by simp
      with h assms(2) obtain n where n: "locks s K = Some (d, n)"
        unfolding lock_owned_def by blast
      from other_connection[OF assms(3) _ holder False, of c] at have "d \<noteq> c" by simp
      from pg_lock_other[OF held n this] s' show ?thesis by simp
    qed
  qed
next
  case (LockRejected t)
  from step_LockRejected[OF assms(1)[unfolded LockRejected]] assms(2) show ?thesis
    unfolding lock_owned_def by (fastforce split: if_splits)
next
  case (Settle t)
  from step_Settle[OF assms(1)[unfolded Settle]] assms(2) show ?thesis
    unfolding lock_owned_def by (fastforce split: if_splits)
next
  case (Unlock t)
  from step_Unlock[OF assms(1)[unfolded Unlock]] obtain L c taken where
    at: "stage s t = Finishing c taken"
    and s': "s' = s\<lparr>locks := snd (pg_advisory_unlock c L (locks s)),
                    stage := (stage s)(t := Disconnecting c)\<rparr>"
    by blast
  show ?thesis
    unfolding lock_owned_def
  proof (intro allI impI)
    fix u K d
    assume h: "call (P u) = WithLock K \<and> lock_holder (stage s' u) = Some d"
    then have u: "u \<noteq> t" using s' by auto
    with h s' have holder: "lock_holder (stage s u) = Some d" by simp
    with h assms(2) obtain n where n: "locks s K = Some (d, n)"
      unfolding lock_owned_def by blast
    from other_connection[OF assms(3) _ holder u, of c] at have "d \<noteq> c" by simp
    with pg_unlock_other[of "locks s" K d n c L] n s'
    show "\<exists>n. locks s' K = Some (d, n)" by simp
  qed
next
  case (UnlockRejected t)
  from step_UnlockRejected[OF assms(1)[unfolded UnlockRejected]] assms(2) show ?thesis
    unfolding lock_owned_def by (fastforce split: if_splits)
next
  case (Probe t)
  from step_Probe[OF assms(1)[unfolded Probe]] obtain L c where
    at: "stage s t = Connected c"
    and s': "s' = s\<lparr>locks := snd (pg_try_advisory_lock c L (locks s)),
                    stage := (stage s)(t := Disconnecting c)\<rparr>"
    by blast
  show ?thesis
    unfolding lock_owned_def
  proof (intro allI impI)
    fix u K d
    assume h: "call (P u) = WithLock K \<and> lock_holder (stage s' u) = Some d"
    then have u: "u \<noteq> t" using s' by auto
    with h s' have holder: "lock_holder (stage s u) = Some d" by simp
    with h assms(2) obtain n where n: "locks s K = Some (d, n)"
      unfolding lock_owned_def by blast
    from other_connection[OF assms(3) _ holder u, of c] at have "d \<noteq> c" by simp
    with pg_try_other[of "locks s" K d n c L] n s'
    show "\<exists>n. locks s' K = Some (d, n)" by simp
  qed
next
  case (ProbeRejected t)
  from step_ProbeRejected[OF assms(1)[unfolded ProbeRejected]] assms(2) show ?thesis
    unfolding lock_owned_def by (fastforce split: if_splits)
next
  case (Disconnect t)
  from step_Disconnect[OF assms(1)[unfolded Disconnect]] assms(2) show ?thesis
    unfolding lock_owned_def by (fastforce split: if_splits)
next
  case (Leave t)
  from step_Leave[OF assms(1)[unfolded Leave]] assms(2) show ?thesis
    unfolding lock_owned_def by (fastforce split: if_splits)
qed

lemma invariant_initial: "invariant P initial"
  by (simp add: invariant_def mutex_owned_def connection_owned_def lock_owned_def initial_def)

lemma step_invariant: "step P s a = Some s' \<Longrightarrow> invariant P s \<Longrightarrow> invariant P s'"
  unfolding invariant_def
  using step_mutex_owned step_connection_owned step_lock_owned by blast

lemma run_invariant: "run P acts s = Some s' \<Longrightarrow> invariant P s \<Longrightarrow> invariant P s'"
  by (induction acts arbitrary: s) (auto split: option.splits dest: step_invariant)

lemma reachable_invariant: "run P acts initial = Some s \<Longrightarrow> invariant P s"
  using run_invariant invariant_initial by blast

lemma running_holder: "running st \<Longrightarrow> \<exists>c. lock_holder st = Some c"
  by (cases st) auto

lemma distinct_locks_overlap:
  assumes "t \<noteq> u" "call (P t) = WithLock L" "call (P u) = WithLock K" "L \<noteq> K"
  shows "\<exists>s. run P [Enter t, Connect t 0, Lock t, Enter u, Connect u 1, Lock u] initial = Some s
             \<and> running (stage s t) \<and> running (stage s u)"
  using assms by (simp add: initial_def pg_advisory_lock_def)

text \<open>
  Claim C2. In every state that concurrent calls can reach, two distinct \<open>withLock\<close>
  calls for the same lock \<open>L\<close> in the same process are never both between the grant and
  the release of the mutex key, so their operations never run at the same time; and, in
  whatever processes they are, they are never both past the acquisition of the advisory
  lock of \<open>L\<close> without having released it. Two \<open>withLock\<close> calls for distinct locks can
  reach a state in which both operations are running.
\<close>

theorem withLock_mutual_exclusion:
  "(run P acts initial = Some s \<and> t \<noteq> u \<and> call (P t) = WithLock L \<and> call (P u) = WithLock L \<longrightarrow>
      (process (P t) = process (P u) \<longrightarrow> \<not> (in_section (stage s t) \<and> in_section (stage s u)))
      \<and> \<not> (running (stage s t) \<and> running (stage s u))
      \<and> (lock_holder (stage s t) = None \<or> lock_holder (stage s u) = None))
   \<and> (t \<noteq> u \<and> call (P t) = WithLock L \<and> call (P u) = WithLock K \<and> L \<noteq> K \<longrightarrow>
      (\<exists>acts s. run P acts initial = Some s \<and> running (stage s t) \<and> running (stage s u)))"
proof (intro conjI impI)
  assume h: "run P acts initial = Some s \<and> t \<noteq> u \<and> call (P t) = WithLock L \<and> call (P u) = WithLock L"
  then have inv: "mutex_owned P s" "connection_owned s" "lock_owned P s"
    using reachable_invariant[of P acts s] by (simp_all add: invariant_def)
  show one: "lock_holder (stage s t) = None \<or> lock_holder (stage s u) = None"
  proof (rule ccontr)
    assume "\<not> ?thesis"
    then obtain c d where c: "lock_holder (stage s t) = Some c" and d: "lock_holder (stage s u) = Some d"
      by auto
    with h inv(3) obtain n m where "locks s L = Some (c, n)" "locks s L = Some (d, m)"
      unfolding lock_owned_def by blast
    then have "d = c" by simp
    moreover from other_connection[OF inv(2) lock_holder_connection[OF c] d] h have "d \<noteq> c" by simp
    ultimately show False by simp
  qed
  then show "\<not> (running (stage s t) \<and> running (stage s u))"
    using running_holder by fastforce
  {
    assume p: "process (P t) = process (P u)"
    show "\<not> (in_section (stage s t) \<and> in_section (stage s u))"
    proof
      assume "in_section (stage s t) \<and> in_section (stage s u)"
      with h inv(1) have "mutex s (process (P t), L) = Some t" "mutex s (process (P u), L) = Some u"
        unfolding mutex_owned_def by blast+
      with p h show False by simp
    qed
  }
next
  assume "t \<noteq> u \<and> call (P t) = WithLock L \<and> call (P u) = WithLock K \<and> L \<noteq> K"
  then show "\<exists>acts s. run P acts initial = Some s \<and> running (stage s t) \<and> running (stage s u)"
    using distinct_locks_overlap[of t u P L K] by blast
qed

lemma same_lock_run:
  "run same_lock_callers [Enter 0, Connect 0 7, Lock 0] initial =
     Some \<lparr>mutex = (\<lambda>k. None)((0, 200) \<mapsto> 0), locks = (\<lambda>k. None)(200 \<mapsto> (7, 0)),
           reserved = (\<lambda>c. None)(7 \<mapsto> 0), stage = (\<lambda>t. Called)(0 := Running 7)\<rparr>"
  by (simp add: same_lock_callers_def initial_def pg_advisory_lock_def)

theorem withLock_mutual_exclusion_witness:
  "(\<exists>s. run same_lock_callers [Enter 0, Connect 0 7, Lock 0] initial = Some s
        \<and> call (same_lock_callers 0) = WithLock 200 \<and> call (same_lock_callers 1) = WithLock 200
        \<and> process (same_lock_callers 0) = process (same_lock_callers 1)
        \<and> running (stage s 0) \<and> \<not> in_section (stage s 1) \<and> step same_lock_callers s (Enter 1) = None)
   \<and> call (two_lock_callers 0) = WithLock 100 \<and> call (two_lock_callers 1) = WithLock 200
   \<and> (\<exists>acts s. run two_lock_callers acts initial = Some s
         \<and> running (stage s 0) \<and> running (stage s 1))"
proof -
  let ?s = "\<lparr>mutex = (\<lambda>k. None)((0, 200) \<mapsto> 0), locks = (\<lambda>k. None)(200 \<mapsto> (7, 0)),
           reserved = (\<lambda>c. None)(7 \<mapsto> 0), stage = (\<lambda>t. Called)(0 := Running (7::nat))\<rparr>"
  have c: "call (same_lock_callers 0) = WithLock 200" "call (same_lock_callers 1) = WithLock 200"
    "process (same_lock_callers 0) = process (same_lock_callers 1)"
    by (simp_all add: same_lock_callers_def)
  have r: "running (stage ?s 0)" "in_section (stage ?s 0)" by simp_all
  have "\<not> (in_section (stage ?s 0) \<and> in_section (stage ?s 1))"
    using withLock_mutual_exclusion [of same_lock_callers "[Enter 0, Connect 0 7, Lock 0]" ?s 0 1 200 200]
      same_lock_run c by simp
  with r have "\<not> in_section (stage ?s 1)" by blast
  moreover have "step same_lock_callers ?s (Enter 1) = None"
    by (simp add: same_lock_callers_def)
  ultimately have first: "\<exists>s. run same_lock_callers [Enter 0, Connect 0 7, Lock 0] initial = Some s
        \<and> call (same_lock_callers 0) = WithLock 200 \<and> call (same_lock_callers 1) = WithLock 200
        \<and> process (same_lock_callers 0) = process (same_lock_callers 1)
        \<and> running (stage s 0) \<and> \<not> in_section (stage s 1) \<and> step same_lock_callers s (Enter 1) = None"
    using same_lock_run c r(1) by blast
  have d: "call (two_lock_callers 0) = WithLock 100" "call (two_lock_callers 1) = WithLock 200"
    by (simp_all add: two_lock_callers_def)
  have "\<exists>acts s. run two_lock_callers acts initial = Some s
         \<and> running (stage s 0) \<and> running (stage s 1)"
    using withLock_mutual_exclusion [of two_lock_callers _ _ 0 1 100 200] d by simp
  with first d show ?thesis by blast
qed

end
